theory Spec2Isabelle
  imports Complex_Main "HOL-Library.Word"
begin

unbundle bit_operations_syntax

section \<open>Data model of conversion.py\<close>

type_synonym u8 = "8 word"

text \<open>The exceptions the routines of class Conversion can raise.\<close>

datatype error = TypeError | ValueError | IndexError | AttributeError | Cv2Error

definition thenE :: "error + 'a \<Rightarrow> ('a \<Rightarrow> error + 'b) \<Rightarrow> error + 'b" where
  "thenE r f = (case r of Inl e \<Rightarrow> Inl e | Inr x \<Rightarrow> f x)"

text \<open>
  A frame as the routines observe it: \<^verbatim>\<open>row, column = frame.shape\<close> and
  \<^verbatim>\<open>frame.tobytes()\<close>. The Y16 routines hand the frame to cv2 without looking
  inside it.
\<close>

record frame =
  shape_rows :: nat
  shape_cols :: nat
  tobytes :: "u8 list"

text \<open>A two-dimensional uint8 NumPy array: its shape and its rows.\<close>

record ndarray8 =
  nrows :: nat
  ncols :: nat
  cells :: "u8 list list"

definition zeros2 :: "nat \<Rightarrow> nat \<Rightarrow> ndarray8" where
  "zeros2 h w = \<lparr>nrows = h, ncols = w, cells = replicate h (replicate w 0)\<rparr>"

text \<open>
  \<^verbatim>\<open>a[i,] = v\<close>: IndexError when row i does not exist; v must have the row's
  length or length 1 (NumPy broadcasts it), otherwise ValueError.
\<close>

definition set_row :: "ndarray8 \<Rightarrow> nat \<Rightarrow> u8 list \<Rightarrow> error + ndarray8" where
  "set_row a i v =
     (if nrows a \<le> i then Inl IndexError
      else if length v = ncols a then Inr (a\<lparr>cells := (cells a)[i := v]\<rparr>)
      else if length v = 1 then Inr (a\<lparr>cells := (cells a)[i := replicate (ncols a) (hd v)]\<rparr>)
      else Inl ValueError)"

definition get2 :: "ndarray8 \<Rightarrow> nat \<Rightarrow> nat \<Rightarrow> error + u8" where
  "get2 a i j = (if i < nrows a \<and> j < ncols a then Inr (cells a ! i ! j) else Inl IndexError)"

definition set2 :: "ndarray8 \<Rightarrow> nat \<Rightarrow> nat \<Rightarrow> u8 \<Rightarrow> error + ndarray8" where
  "set2 a i j v =
     (if i < nrows a \<and> j < ncols a
      then Inr (a\<lparr>cells := (cells a)[i := (cells a ! i)[j := v]]\<rparr>)
      else Inl IndexError)"

text \<open>
  The class attributes. \<^verbatim>\<open>format_type\<close> starts as the integer 0 and becomes the
  negotiated format string; \<^verbatim>\<open>y16CameraFlag\<close> starts as -1; \<^verbatim>\<open>y8_frame\<close> starts
  as None.
\<close>

datatype pyfmt = FmtInt int | FmtStr string

record conv_state =
  format_type :: pyfmt
  y16CameraFlag :: int
  y8_frame :: "ndarray8 option"

definition OTHER_Y16CAMERAS :: int where "OTHER_Y16CAMERAS = 0"
definition SEE3CAM_20CUG :: int where "SEE3CAM_20CUG = 1"
definition SEE3CAM_CU40 :: int where "SEE3CAM_CU40 = 2"
definition V4L2_PIX_FMT_Y16 :: string where "V4L2_PIX_FMT_Y16 = ''Y16 ''"
definition V4L2_PIX_FMT_Y12 :: string where "V4L2_PIX_FMT_Y12 = ''Y12 ''"

definition class_defaults :: conv_state where
  "class_defaults = \<lparr>format_type = FmtInt 0, y16CameraFlag = - 1, y8_frame = None\<rparr>"

text \<open>What a routine hands back: None, a string, a grey grid, a colour image, or a pair.\<close>

datatype 'img pyval = PyNone | PyStr string | Gray ndarray8 | Image 'img | Pair 'img ndarray8

text \<open>
  The cv2 functions the class calls. They are library code, taken as parameters.
  \<^verbatim>\<open>convertScaleAbs\<close> stands for the call with two positional arguments, as the
  source writes it: \<^verbatim>\<open>cv2.convertScaleAbs(frame, 0.2490234375)\<close>. Its second argument
  here is the decimal value of that literal. The binding's signature is
  \<^verbatim>\<open>convertScaleAbs(src[, dst[, alpha[, beta]]])\<close>, so the literal is passed as dst,
  not as alpha.
\<close>

datatype color_code = COLOR_YUV2BGR_UYVY | COLOR_YUV2BGR_YUY2 | COLOR_BayerRG2BGR

record 'img cv2 =
  cvtColor_frame :: "frame \<Rightarrow> color_code \<Rightarrow> error + 'img"
  cvtColor_u8 :: "ndarray8 \<Rightarrow> color_code \<Rightarrow> error + 'img"
  convertScaleAbs :: "frame \<Rightarrow> rat \<Rightarrow> error + ndarray8"

section \<open>Loops\<close>

text \<open>A for loop over a list of indices; an exception in the body ends it.\<close>

fun for_each :: "'a list \<Rightarrow> ('a \<Rightarrow> 's \<Rightarrow> error + 's) \<Rightarrow> 's \<Rightarrow> error + 's" where
  "for_each [] body s = Inr s"
| "for_each (x # xs) body s = thenE (body x s) (for_each xs body)"

text \<open>\<^verbatim>\<open>range(0, stop, step)\<close> for a positive step.\<close>

definition range_step :: "nat \<Rightarrow> nat \<Rightarrow> nat list" where
  "range_step stop step = map (\<lambda>k. k * step) [0..<(stop + step - 1) div step]"

section \<open>init\_conversion\<close>

text \<open>\<^verbatim>\<open>s.find(sub)\<close>: the first index where sub occurs in s, or -1.\<close>

fun str_find_from :: "string \<Rightarrow> string \<Rightarrow> int \<Rightarrow> int" where
  "str_find_from [] sub k = (if sub = [] then k else - 1)"
| "str_find_from (c # cs) sub k =
     (if take (length sub) (c # cs) = sub then k else str_find_from cs sub (k + 1))"

definition str_find :: "string \<Rightarrow> string \<Rightarrow> int" where
  "str_find s sub = str_find_from s sub 0"

definition init_conversion :: "conv_state \<Rightarrow> string \<times> nat \<times> nat \<times> nat \<Rightarrow> string \<Rightarrow> conv_state" where
  "init_conversion cls current_format device_name =
     (case current_format of (fmt, width, height, fps) \<Rightarrow>
        let cls1 = cls\<lparr>format_type := FmtStr fmt\<rparr>;
            cls2 =
              (if fmt = V4L2_PIX_FMT_Y16 then
                 (if str_find device_name ''See3CAM_20CUG'' > - 1
                  then cls1\<lparr>y16CameraFlag := SEE3CAM_20CUG\<rparr>
                  else if str_find device_name ''See3CAM_CU40'' > - 1
                  then cls1\<lparr>y16CameraFlag := SEE3CAM_CU40\<rparr>
                  else cls1\<lparr>y16CameraFlag := OTHER_Y16CAMERAS\<rparr>)
               else cls1)
        in cls2\<lparr>y8_frame := Some (zeros2 height width)\<rparr>)"

section \<open>convert\_y12\_to\_y8\<close>

text \<open>
  \<^verbatim>\<open>np.reshape(a, (-1, 3))\<close> of a flat array: rows of three, ValueError when the size
  is not a multiple of 3.
\<close>

fun rows_of_3 :: "'a list \<Rightarrow> 'a list list" where
  "rows_of_3 (a # b # c # xs) = [a, b, c] # rows_of_3 xs"
| "rows_of_3 _ = []"

definition np_reshape_3 :: "'a list \<Rightarrow> error + 'a list list" where
  "np_reshape_3 bs = (if length bs mod 3 = 0 then Inr (rows_of_3 bs) else Inl ValueError)"

text \<open>\<^verbatim>\<open>np.delete(a, k, 1)\<close>: the array without its column k.\<close>

definition np_delete_col :: "'a list list \<Rightarrow> nat \<Rightarrow> 'a list list" where
  "np_delete_col a k = map (\<lambda>r. take k r @ drop (Suc k) r) a"

text \<open>
  The row loop (lines 86 to 89). The buffer is the class attribute, written in place, so
  the rows written before an exception stay written. Assigning into None is a TypeError.
\<close>

fun y12_rows :: "u8 list \<Rightarrow> nat \<Rightarrow> nat list \<Rightarrow> nat \<Rightarrow> ndarray8 option
    \<Rightarrow> error option \<times> ndarray8 option" where
  "y12_rows filtered_bytes column [] m y8 = (None, y8)"
| "y12_rows filtered_bytes column (i # is) m y8 =
     (case y8 of
        None \<Rightarrow> (Some TypeError, None)
      | Some a \<Rightarrow>
          (case set_row a i (take column (drop m filtered_bytes)) of
             Inl e \<Rightarrow> (Some e, Some a)
           | Inr a' \<Rightarrow> y12_rows filtered_bytes column is (m + column) (Some a')))"

definition y12_filter :: "u8 list list \<Rightarrow> u8 list" where
  "y12_filter triplets = concat (np_delete_col triplets 2)"

definition convert_y12_to_y8 :: "conv_state \<Rightarrow> frame \<Rightarrow> (error + 'img pyval) \<times> conv_state" where
  "convert_y12_to_y8 cls frame =
     (let raw_bytes = tobytes frame;
          row = shape_rows frame;
          column = shape_cols frame
      in case np_reshape_3 raw_bytes of
           Inl e \<Rightarrow> (Inl e, cls)
         | Inr triplets \<Rightarrow>
             (case y12_rows (y12_filter triplets) column [0..<row] 0 (y8_frame cls) of
                (Some e, y8) \<Rightarrow> (Inl e, cls\<lparr>y8_frame := y8\<rparr>)
              | (None, y8) \<Rightarrow>
                  (Inr (case y8 of None \<Rightarrow> PyNone | Some a \<Rightarrow> Gray a), cls\<lparr>y8_frame := y8\<rparr>)))"

section \<open>convert\_y12\_for\_still\<close>

text \<open>
  \<^verbatim>\<open>raw_bytes[m]\<close> is a Python int in 0..255 (IndexError past the end); the
  arithmetic on it is on unbounded integers; a store into the uint8 buffer is IndexError
  past the end.
\<close>

definition byte_at :: "u8 list \<Rightarrow> nat \<Rightarrow> error + nat" where
  "byte_at bs m = (if m < length bs then Inr (unat (bs ! m)) else Inl IndexError)"

definition store_u8 :: "u8 list \<Rightarrow> nat \<Rightarrow> nat \<Rightarrow> error + u8 list" where
  "store_u8 buf k v = (if k < length buf then Inr (buf[k := of_nat v]) else Inl IndexError)"

text \<open>The body of the inner loop, lines 128 to 139, statement by statement.\<close>

definition still_body :: "u8 list \<Rightarrow> nat \<Rightarrow> nat \<Rightarrow> nat \<Rightarrow> u8 list \<times> nat \<Rightarrow> error + u8 list \<times> nat" where
  "still_body raw_bytes stride j i s =
     (case s of (buf, m) \<Rightarrow>
        thenE (byte_at raw_bytes m) (\<lambda>r0.
        thenE (store_u8 buf (stride * j + i + 1) (drop_bit 4 (240 AND r0))) (\<lambda>buf1.
        thenE (byte_at raw_bytes m) (\<lambda>r0'.
        thenE (byte_at raw_bytes (m + 2)) (\<lambda>r2.
        thenE (store_u8 buf1 (stride * j + i) (push_bit 4 (r0' AND 15) + (r2 AND 15))) (\<lambda>buf2.
        thenE (byte_at raw_bytes (m + 1)) (\<lambda>r1.
        thenE (store_u8 buf2 (stride * j + i + 3) (drop_bit 4 (240 AND r1))) (\<lambda>buf3.
        thenE (byte_at raw_bytes (m + 1)) (\<lambda>r1'.
        thenE (byte_at raw_bytes (m + 2)) (\<lambda>r2'.
        thenE (store_u8 buf3 (stride * j + i + 2)
                 (push_bit 4 (r1' AND 15) + drop_bit 4 (r2' AND 240))) (\<lambda>buf4.
        Inr (buf4, m + 3))))))))))))"

definition convert_y12_for_still :: "frame \<Rightarrow> error + u8 list" where
  "convert_y12_for_still frame =
     (let raw_bytes = tobytes frame;
          row = shape_rows frame;
          column = shape_cols frame;
          y12_still_buffer = replicate (row * column * 2) 0;
          stride = column * 2
      in thenE (for_each [0..<row]
                  (\<lambda>j. for_each (range_step stride 4) (\<lambda>i. still_body raw_bytes stride j i))
                  (y12_still_buffer, 0))
           (\<lambda>s. Inr (fst s)))"

section \<open>convert\_RGIR\_to\_RGGB\<close>

text \<open>
  \<^verbatim>\<open>bayer_RGIR.clone()\<close>: cv2.convertScaleAbs returns a NumPy array, and a NumPy
  array has copy() but no attribute clone (clone is the method of the C++ cv::Mat), so the
  attribute lookup raises AttributeError.
\<close>

definition ndarray_clone :: "ndarray8 \<Rightarrow> error + ndarray8" where
  "ndarray_clone a = Inl AttributeError"

text \<open>
  \<^verbatim>\<open>np.zeros(int((column * row) / 4), np.uint8).reshape(int(row / 2), int(column / 2))\<close>:
  ValueError when the sizes differ.
\<close>

definition ir_zeros :: "nat \<Rightarrow> nat \<Rightarrow> error + ndarray8" where
  "ir_zeros row column =
     (if (column * row) div 4 = (row div 2) * (column div 2)
      then Inr (zeros2 (row div 2) (column div 2)) else Inl ValueError)"

text \<open>Lines 162 and 163, for one 2 by 2 block.\<close>

definition rgir_body :: "ndarray8 \<Rightarrow> nat \<Rightarrow> nat \<Rightarrow> ndarray8 \<times> ndarray8 \<Rightarrow> error + ndarray8 \<times> ndarray8" where
  "rgir_body bayer_RGIR i j s =
     (case s of (bayer_RGGB, ir_frame) \<Rightarrow>
        thenE (get2 bayer_RGIR i (j + 1)) (\<lambda>g.
        thenE (set2 bayer_RGGB (i + 1) j g) (\<lambda>bayer_RGGB'.
        thenE (get2 bayer_RGIR (i + 1) j) (\<lambda>ir.
        thenE (set2 ir_frame (i div 2) (j div 2) ir) (\<lambda>ir_frame'.
        Inr (bayer_RGGB', ir_frame'))))))"

text \<open>Lines 158 to 166: what follows the duplication of the scaled grid.\<close>

definition rgir_split :: "'img cv2 \<Rightarrow> nat \<Rightarrow> nat \<Rightarrow> ndarray8 \<Rightarrow> ndarray8 \<Rightarrow> error + 'img pyval" where
  "rgir_split cv row column bayer_RGIR bayer_RGGB =
     thenE (ir_zeros row column) (\<lambda>ir_frame.
     thenE (for_each (range_step row 2)
              (\<lambda>i. for_each (range_step column 2) (\<lambda>j. rgir_body bayer_RGIR i j))
              (bayer_RGGB, ir_frame)) (\<lambda>s.
     thenE (cvtColor_u8 cv (fst s) COLOR_BayerRG2BGR) (\<lambda>rgb_frame.
     Inr (Pair rgb_frame (snd s)))))"

definition convert_RGIR_to_RGGB :: "'img cv2 \<Rightarrow> frame \<Rightarrow> error + 'img pyval" where
  "convert_RGIR_to_RGGB cv frame =
     (let row = shape_rows frame; column = shape_cols frame
      in thenE (convertScaleAbs cv frame (249023 / 1000000)) (\<lambda>bayer_RGIR.
         thenE (ndarray_clone bayer_RGIR) (\<lambda>bayer_RGGB.
         rgir_split cv row column bayer_RGIR bayer_RGGB)))"

section \<open>convert\_y16\_to\_rgb\<close>

text \<open>
  An if/elif chain with no else: for any other flag the method ends and returns None.
  Each convertScaleAbs call is written with two positional arguments, the frame and the
  literal.
\<close>

definition convert_y16_to_rgb :: "'img cv2 \<Rightarrow> conv_state \<Rightarrow> frame \<Rightarrow> error + 'img pyval" where
  "convert_y16_to_rgb cv cls frame =
     (if y16CameraFlag cls = SEE3CAM_20CUG
      then thenE (convertScaleAbs cv frame (2490234375 / 10000000000)) (\<lambda>a. Inr (Gray a))
      else if y16CameraFlag cls = SEE3CAM_CU40
      then convert_RGIR_to_RGGB cv frame
      else if y16CameraFlag cls = OTHER_Y16CAMERAS
      then thenE (convertScaleAbs cv frame (6226 / 100000)) (\<lambda>a. Inr (Gray a))
      else Inr PyNone)"

section \<open>convert\_frame\<close>

text \<open>
  The values of the dispatch table are the two bound methods; the default of
  \<^verbatim>\<open>dict.get\<close> is a lambda without parameters. Calling a function of no
  parameters with one argument raises TypeError before its body runs.
\<close>

datatype bound_method = Convert_y12_to_y8 | Convert_y16_to_rgb

datatype 'img callee = Bound bound_method | Lambda0 "'img pyval"

definition convert_func :: "string \<Rightarrow> 'img callee option" where
  "convert_func = [''Y12 '' \<mapsto> Bound Convert_y12_to_y8, ''Y16 '' \<mapsto> Bound Convert_y16_to_rgb]"

definition dict_get :: "('k \<Rightarrow> 'v option) \<Rightarrow> 'k \<Rightarrow> 'v \<Rightarrow> 'v" where
  "dict_get d k dflt = (case d k of Some v \<Rightarrow> v | None \<Rightarrow> dflt)"

fun call1 :: "'img cv2 \<Rightarrow> conv_state \<Rightarrow> 'img callee \<Rightarrow> frame \<Rightarrow> (error + 'img pyval) \<times> conv_state" where
  "call1 cv cls (Bound Convert_y12_to_y8) frame = convert_y12_to_y8 cls frame"
| "call1 cv cls (Bound Convert_y16_to_rgb) frame = (convert_y16_to_rgb cv cls frame, cls)"
| "call1 cv cls (Lambda0 body) frame = (Inl TypeError, cls)"

definition convert_frame :: "'img cv2 \<Rightarrow> conv_state \<Rightarrow> frame \<Rightarrow> string \<Rightarrow> (error + 'img pyval) \<times> conv_state" where
  "convert_frame cv cls frame frame_format =
     (if format_type cls = FmtStr ''UYVY''
      then (thenE (cvtColor_frame cv frame COLOR_YUV2BGR_UYVY) (\<lambda>img. Inr (Image img)), cls)
      else if format_type cls = FmtStr ''YUY2''
      then (thenE (cvtColor_frame cv frame COLOR_YUV2BGR_YUY2) (\<lambda>img. Inr (Image img)), cls)
      else let func = dict_get convert_func frame_format (Lambda0 (PyStr ''Invalid Selection''))
           in call1 cv cls func frame)"


section \<open>Reference definitions\<close>

text \<open>
  The four output bytes of one packed triplet as section 4.5 of the specification writes
  them: out[+0], out[+1], out[+2], out[+3].
\<close>

definition spec_quad :: "u8 \<Rightarrow> u8 \<Rightarrow> u8 \<Rightarrow> u8 list" where
  "spec_quad b0 b1 b2 =
     [of_nat (push_bit 4 (unat b0 AND 15) + (unat b2 AND 15)),
      of_nat (drop_bit 4 (unat b0 AND 240)),
      of_nat (push_bit 4 (unat b1 AND 15) + drop_bit 4 (unat b2 AND 240)),
      of_nat (drop_bit 4 (unat b1 AND 240))]"

definition spec_still :: "u8 list \<Rightarrow> nat \<Rightarrow> u8 list" where
  "spec_still raw n =
     concat (map (\<lambda>t. spec_quad (raw ! (3 * t)) (raw ! (3 * t + 1)) (raw ! (3 * t + 2))) [0..<n])"


text \<open>The state of the still loop after t triplets: the buffer and the read position m.\<close>

definition still_state :: "u8 list \<Rightarrow> nat \<Rightarrow> nat \<Rightarrow> u8 list \<times> nat" where
  "still_state raw L t = (spec_still raw t @ replicate (L - 4 * t) 0, 3 * t)"


text \<open>
  The packed layout of two 12-bit samples that the still routine reads back: byte 0 and
  byte 1 hold the upper eight bits of sample 0 and of sample 1, byte 2 holds the two low
  nibbles (sample 0 in the low half). A frame of one such pair, and the decoding of the
  padded output as little-endian 16-bit containers (out[+1] above out[+0]).
\<close>

definition pack12 :: "12 word \<Rightarrow> 12 word \<Rightarrow> u8 list" where
  "pack12 s0 s1 =
     [of_nat (unat s0 div 16), of_nat (unat s1 div 16), of_nat (unat s0 mod 16 + 16 * (unat s1 mod 16))]"

definition pair_frame :: "12 word \<Rightarrow> 12 word \<Rightarrow> frame" where
  "pair_frame s0 s1 = \<lparr>shape_rows = 1, shape_cols = 2, tobytes = pack12 s0 s1\<rparr>"

fun unpad16 :: "u8 list \<Rightarrow> nat list" where
  "unpad16 (lo # hi # rest) = (push_bit 8 (unat hi) + unat lo) # unpad16 rest"
| "unpad16 _ = []"

text \<open>A whole frame of packed samples, and the upper eight bits of a 12-bit sample.\<close>

fun pack12_all :: "12 word list \<Rightarrow> u8 list" where
  "pack12_all (s0 # s1 # ss) = pack12 s0 s1 @ pack12_all ss"
| "pack12_all _ = []"

definition high_byte :: "12 word \<Rightarrow> u8" where
  "high_byte s = of_nat (unat s div 16)"

text \<open>A well-formed array: as many rows as its shape says, each of the width it says.\<close>

definition shape_ok :: "ndarray8 \<Rightarrow> bool" where
  "shape_ok a = (length (cells a) = nrows a \<and> list_all (\<lambda>r. length r = ncols a) (cells a))"

text \<open>
  The bytes the unpacker keeps, in closed form: bytes 0 and 1 of every triplet. And the
  rows of a buffer after the row loop has written rows lo up to hi.
\<close>

definition kept_bytes :: "u8 list \<Rightarrow> u8 list" where
  "kept_bytes raw = concat (map (\<lambda>t. [raw ! (3 * t), raw ! (3 * t + 1)]) [0..<length raw div 3])"

definition fill_rows :: "u8 list \<Rightarrow> nat \<Rightarrow> nat \<Rightarrow> nat \<Rightarrow> u8 list list \<Rightarrow> u8 list list" where
  "fill_rows fb w lo hi cs =
     map (\<lambda>i. if lo \<le> i \<and> i < hi then take w (drop (i * w) fb) else cs ! i) [0..<length cs]"

text \<open>
  Section 4.3 of the specification, in its own words: drop the second byte of every
  triplet, flatten, and cut into rows of column bytes.
\<close>

definition spec_drop_middle :: "u8 list \<Rightarrow> u8 list" where
  "spec_drop_middle raw = concat (map (\<lambda>t. [raw ! (3 * t), raw ! (3 * t + 2)]) [0..<length raw div 3])"

definition spec_unpack_rows :: "nat \<Rightarrow> nat \<Rightarrow> u8 list \<Rightarrow> u8 list list" where
  "spec_unpack_rows row column raw =
     map (\<lambda>i. take column (drop (i * column) (spec_drop_middle raw))) [0..<row]"

text \<open>
  Modelled from the library: cv2 is OpenCV, not under src/. The rounding inside
  cv2.convertScaleAbs: OpenCV's saturate\_cast rounds to the nearest integer, ties to even.
\<close>

definition cvRound :: "rat \<Rightarrow> int" where
  "cvRound q =
     (let f = \<lfloor>q\<rfloor>; d = q - of_int f
      in if d < 1 / 2 then f else if 1 / 2 < d then f + 1 else if even f then f else f + 1)"

text \<open>
  Modelled from the library: the saturation of cv2.convertScaleAbs, a clamp to [0, 255]
  stored as a byte.
\<close>

definition saturate_u8 :: "int \<Rightarrow> u8" where
  "saturate_u8 v = of_nat (nat (max 0 (min 255 v)))"

text \<open>
  Modelled from the library: one output sample of cv2.convertScaleAbs for the scale alpha
  and the offset beta, the saturated rounding of |x * alpha + beta|. The arithmetic is
  exact; it is the computed value wherever the floating-point product is exact, as it is
  for alpha = 1 and for alpha = 0.2490234375 = 255/1024 on 16-bit samples.
\<close>

definition cv_scale_px :: "rat \<Rightarrow> rat \<Rightarrow> nat \<Rightarrow> u8" where
  "cv_scale_px alpha beta x = saturate_u8 (cvRound \<bar>of_nat x * alpha + beta\<bar>)"




text \<open>A stand-in for cv2, for closed examples: its functions succeed and say what they were asked.\<close>

definition example_cv2 :: "color_code cv2" where
  "example_cv2 =
     \<lparr>cvtColor_frame = (\<lambda>f code. Inr code),
      cvtColor_u8 = (\<lambda>a code. Inr code),
      convertScaleAbs = (\<lambda>f dst. Inr (zeros2 (shape_rows f) (shape_cols f)))\<rparr>"


text \<open>
  A grid of one value, and the infrared grid of the demosaic loop after n blocks (in
  row-major order) have been captured from a grid of the value v.
\<close>

definition uniform :: "nat \<Rightarrow> nat \<Rightarrow> u8 \<Rightarrow> ndarray8" where
  "uniform h w v = \<lparr>nrows = h, ncols = w, cells = replicate h (replicate w v)\<rparr>"

definition ir_state :: "nat \<Rightarrow> nat \<Rightarrow> u8 \<Rightarrow> nat \<Rightarrow> ndarray8" where
  "ir_state R C v n =
     \<lparr>nrows = R, ncols = C,
      cells = map (\<lambda>a. map (\<lambda>b. if a * C + b < n then v else 0) [0..<C]) [0..<R]\<rparr>"

section \<open>Basic facts\<close>

lemma thenE_Inr: "thenE (Inr x) f = f x"
  by (simp add: thenE_def)

lemma thenE_Inl: "thenE (Inl e) f = Inl e"
  by (simp add: thenE_def)

section \<open>The still routine writes the documented layout\<close>

lemma length_spec_quad: "length (spec_quad b0 b1 b2) = 4"
  by (simp add: spec_quad_def)

lemma length_spec_still: "length (spec_still raw n) = 4 * n"
  by (induction n) (simp_all add: spec_still_def spec_quad_def)

lemma spec_still_Suc:
  "spec_still raw (Suc t) = spec_still raw t @ spec_quad (raw ! (3 * t)) (raw ! (3 * t + 1)) (raw ! (3 * t + 2))"
  by (simp add: spec_still_def)

lemma update4:
  assumes "4 \<le> n"
  shows "(xs @ replicate n (0::u8))[length xs + 1 := a, length xs := b, length xs + 3 := c, length xs + 2 := d]
         = (xs @ [b, a, d, c]) @ replicate (n - 4) 0"
proof -
  from assms obtain k where n: "n = Suc (Suc (Suc (Suc k)))"
    using le_Suc_ex [of 4 n] by (auto simp: numeral_eq_Suc)
  show ?thesis unfolding n by (simp add: list_update_append)
qed

lemma still_body_step:
  assumes "3 * t + 2 < length raw" and "4 * t + 3 < L" and "stride * j + i = 4 * t"
  shows "still_body raw stride j i (spec_still raw t @ replicate (L - 4 * t) 0, 3 * t)
         = Inr (spec_still raw (Suc t) @ replicate (L - 4 * Suc t) 0, 3 * Suc t)"
proof -
  have n4: "4 \<le> L - 4 * t" using assms(2) by simp
  have len: "length (spec_still raw t) = 4 * t" by (rule length_spec_still)
  have upd: "\<And>a b c d. (spec_still raw t @ replicate (L - 4 * t) (0::u8))[4 * t + 1 := a, 4 * t := b, 4 * t + 3 := c, 4 * t + 2 := d]
         = (spec_still raw t @ [b, a, d, c]) @ replicate (L - 4 * t - 4) 0"
    using update4 [OF n4, of "spec_still raw t"] by (simp add: len)
  show ?thesis
    using assms
    unfolding still_body_def
    apply (simp add: byte_at_def store_u8_def thenE_def len and.commute)
    apply (simp add: spec_still_Suc spec_quad_def)
    using upd apply (simp add: and.commute)
    done
qed


lemma range_step_4: "range_step (4 * c) 4 = map (\<lambda>k. k * 4) [0..<c]"
  by (simp add: range_step_def)

lemma still_inner:
  assumes "a \<le> c" and "3 * (j * c + c) \<le> length raw" and "4 * (j * c + c) \<le> L"
  shows "for_each (map (\<lambda>k. k * 4) [a..<c]) (\<lambda>i. still_body raw (4 * c) j i) (still_state raw L (j * c + a))
         = Inr (still_state raw L (j * c + c))"
  using assms
proof (induction "c - a" arbitrary: a)
  case 0
  then show ?case by simp
next
  case (Suc n)
  then have ac: "a < c" by simp
  have step: "still_body raw (4 * c) j (a * 4) (still_state raw L (j * c + a))
              = Inr (still_state raw L (j * c + Suc a))"
    unfolding still_state_def
    using still_body_step [of "j * c + a" raw L "4 * c" j "a * 4"] ac Suc.prems
    by (simp add: algebra_simps)
  have rest: "for_each (map (\<lambda>k. k * 4) [Suc a..<c]) (\<lambda>i. still_body raw (4 * c) j i)
                (still_state raw L (j * c + Suc a)) = Inr (still_state raw L (j * c + c))"
    using Suc.hyps(1) [of "Suc a"] Suc.hyps(2) ac Suc.prems by simp
  show ?case
    using ac step rest by (simp add: upt_conv_Cons thenE_def)
qed

lemma still_outer:
  assumes "b \<le> row" and "3 * (row * c) \<le> length raw" and "4 * (row * c) \<le> L"
  shows "for_each [b..<row] (\<lambda>j. for_each (range_step (4 * c) 4) (\<lambda>i. still_body raw (4 * c) j i))
           (still_state raw L (b * c)) = Inr (still_state raw L (row * c))"
  using assms
proof (induction "row - b" arbitrary: b)
  case 0
  then show ?case by simp
next
  case (Suc n)
  then have br: "b < row" by simp
  then have le: "b * c + c \<le> row * c"
    using mult_le_mono1 [of "Suc b" row c] by simp
  have p2: "3 * (b * c + c) \<le> length raw" using le Suc.prems(2) by simp
  have p3: "4 * (b * c + c) \<le> L" using le Suc.prems(3) by simp
  have inner: "for_each (range_step (4 * c) 4) (\<lambda>i. still_body raw (4 * c) b i) (still_state raw L (b * c))
               = Inr (still_state raw L (Suc b * c))"
    using still_inner [of 0 c b raw L, OF _ p2 p3] by (simp add: range_step_4 add.commute)
  have rest: "for_each [Suc b..<row] (\<lambda>j. for_each (range_step (4 * c) 4) (\<lambda>i. still_body raw (4 * c) j i))
           (still_state raw L (Suc b * c)) = Inr (still_state raw L (row * c))"
    using Suc.hyps(1) [of "Suc b"] Suc.hyps(2) br Suc.prems by simp
  show ?case
    using br inner rest by (simp add: upt_conv_Cons thenE_def del: mult_Suc)
qed

lemma still_result:
  assumes "even (shape_cols f)"
    and "3 * (shape_rows f * shape_cols f div 2) \<le> length (tobytes f)"
  shows "convert_y12_for_still f = Inr (spec_still (tobytes f) (shape_rows f * shape_cols f div 2))"
proof -
  from assms(1) obtain c where c: "shape_cols f = 2 * c" by (auto elim: evenE)
  define L where "L = shape_rows f * shape_cols f * 2"
  have half: "shape_rows f * shape_cols f div 2 = shape_rows f * c" by (simp add: c)
  have L: "L = 4 * (shape_rows f * c)" by (simp add: L_def c)
  have stride: "shape_cols f * 2 = 4 * c" by (simp add: c)
  have init: "(replicate L 0, 0) = still_state (tobytes f) L (0 * c)"
    by (simp add: still_state_def spec_still_def)
  have final: "fst (still_state (tobytes f) L (shape_rows f * c)) = spec_still (tobytes f) (shape_rows f * c)"
    by (simp add: still_state_def L)
  have loop: "for_each [0..<shape_rows f]
          (\<lambda>j. for_each (range_step (4 * c) 4) (\<lambda>i. still_body (tobytes f) (4 * c) j i))
          (still_state (tobytes f) L (0 * c))
        = Inr (still_state (tobytes f) L (shape_rows f * c))"
    using assms(2) by (intro still_outer) (simp_all add: half L)
  show ?thesis
    unfolding convert_y12_for_still_def Let_def stride L_def [symmetric] init loop half
    by (simp add: thenE_def final)
qed


lemma and_15_nat: "(x::nat) AND 15 = x mod 16"
proof -
  have "x AND 15 = x AND mask 4" by (simp add: mask_eq_exp_minus_1)
  also have "\<dots> = take_bit 4 x" by (simp add: take_bit_eq_mask)
  also have "\<dots> = x mod 16" by (simp add: take_bit_eq_mod)
  finally show ?thesis .
qed

lemma hi_nibble_nat: "drop_bit 4 ((x::nat) AND 240) = x div 16 mod 16"
proof -
  have "drop_bit 4 (x AND 240) = drop_bit 4 x AND drop_bit 4 (240::nat)"
    by (rule drop_bit_and)
  also have "drop_bit 4 (240::nat) = 15" by (simp add: drop_bit_eq_div)
  finally show ?thesis by (simp add: and_15_nat drop_bit_eq_div)
qed

lemma lo_shift_nat: "push_bit 4 ((x::nat) AND 15) = 16 * (x mod 16)"
  by (simp only: and_15_nat push_bit_eq_mult) simp

lemma unat_u8_lt: "unat (b::u8) < 256"
  using unsigned_less [of b, where ?'a = nat] by simp

lemma unat_of_nat_u8: "v < 256 \<Longrightarrow> unat (of_nat v :: u8) = v"
  by (simp add: unat_of_nat)

lemma unat_spec_quad:
  "map unat (spec_quad b0 b1 b2) =
     [push_bit 4 (unat b0 AND 15) + (unat b2 AND 15),
      drop_bit 4 (unat b0 AND 240),
      push_bit 4 (unat b1 AND 15) + drop_bit 4 (unat b2 AND 240),
      drop_bit 4 (unat b1 AND 240)]"
proof -
  have a: "push_bit 4 (x AND 15) + (y AND 15) < 256" for x y :: nat
    using lo_shift_nat [of x] and_15_nat [of y] by arith
  have b: "drop_bit 4 (x AND 240) < 256" for x :: nat
    using hi_nibble_nat [of x] by arith
  have c: "push_bit 4 (x AND 15) + drop_bit 4 (y AND 240) < 256" for x y :: nat
    using lo_shift_nat [of x] hi_nibble_nat [of y] by arith
  show ?thesis
    unfolding spec_quad_def list.map
    by (simp only: unat_of_nat_u8 a b c)
qed

lemma spec_still_nth:
  "t < n \<Longrightarrow> r < 4 \<Longrightarrow>
   spec_still raw n ! (4 * t + r) = spec_quad (raw ! (3 * t)) (raw ! (3 * t + 1)) (raw ! (3 * t + 2)) ! r"
proof (induction n)
  case 0
  then show ?case by simp
next
  case (Suc n)
  show ?case
  proof (cases "t < n")
    case True
    then have "4 * t + r < 4 * n" using Suc.prems(2) by simp
    then show ?thesis
      using Suc.IH [OF True Suc.prems(2)]
      by (simp add: spec_still_Suc nth_append length_spec_still)
  next
    case False
    then have "t = n" using Suc.prems(1) by simp
    then show ?thesis
      by (simp add: spec_still_Suc nth_append length_spec_still)
  qed
qed


text \<open>
  C2. For a frame with an even column count that holds its packed triplets (three bytes
  for every two samples), convert\_y12\_for\_still returns a buffer of rows * columns * 2
  bytes, and for the t-th triplet (b0, b1, b2) the bytes at offset k = 4 t are
  out[k+1] = (b0 and 0xF0) >> 4, out[k] = ((b0 and 0x0F) << 4) + (b2 and 0x0F),
  out[k+3] = (b1 and 0xF0) >> 4, out[k+2] = ((b1 and 0x0F) << 4) + ((b2 and 0xF0) >> 4),
  as unbounded integers (no store wraps around).
\<close>

theorem still_layout:
  assumes "even (shape_cols f)"
    and "3 * (shape_rows f * shape_cols f div 2) \<le> length (tobytes f)"
  shows "\<exists>out. convert_y12_for_still f = Inr out \<and>
           length out = shape_rows f * shape_cols f * 2 \<and>
           (\<forall>t < shape_rows f * shape_cols f div 2.
              unat (out ! (4 * t + 1)) = drop_bit 4 (unat (tobytes f ! (3 * t)) AND 240) \<and>
              unat (out ! (4 * t)) =
                push_bit 4 (unat (tobytes f ! (3 * t)) AND 15) + (unat (tobytes f ! (3 * t + 2)) AND 15) \<and>
              unat (out ! (4 * t + 3)) = drop_bit 4 (unat (tobytes f ! (3 * t + 1)) AND 240) \<and>
              unat (out ! (4 * t + 2)) =
                push_bit 4 (unat (tobytes f ! (3 * t + 1)) AND 15) +
                drop_bit 4 (unat (tobytes f ! (3 * t + 2)) AND 240))"
proof -
  let ?n = "shape_rows f * shape_cols f div 2"
  let ?out = "spec_still (tobytes f) ?n"
  have res: "convert_y12_for_still f = Inr ?out"
    using assms by (rule still_result)
  have len: "length ?out = shape_rows f * shape_cols f * 2"
    using assms(1) by (simp add: length_spec_still)
  have cells: "unat (?out ! (4 * t + r)) =
      map unat (spec_quad (tobytes f ! (3 * t)) (tobytes f ! (3 * t + 1)) (tobytes f ! (3 * t + 2))) ! r"
    if "t < ?n" and "r < 4" for t r
    using that by (simp add: spec_still_nth length_spec_quad)
  show ?thesis
  proof (intro exI conjI allI impI)
    show "convert_y12_for_still f = Inr ?out" by (rule res)
    show "length ?out = shape_rows f * shape_cols f * 2" by (rule len)
  next
    fix t assume t: "t < ?n"
    show "unat (?out ! (4 * t + 1)) = drop_bit 4 (unat (tobytes f ! (3 * t)) AND 240)"
      using cells [OF t, of 1] by (simp add: unat_spec_quad)
    show "unat (?out ! (4 * t)) =
            push_bit 4 (unat (tobytes f ! (3 * t)) AND 15) + (unat (tobytes f ! (3 * t + 2)) AND 15)"
      using cells [OF t, of 0] by (simp add: unat_spec_quad)
    show "unat (?out ! (4 * t + 3)) = drop_bit 4 (unat (tobytes f ! (3 * t + 1)) AND 240)"
      using cells [OF t, of 3] by (simp add: unat_spec_quad)
    show "unat (?out ! (4 * t + 2)) =
            push_bit 4 (unat (tobytes f ! (3 * t + 1)) AND 15) +
            drop_bit 4 (unat (tobytes f ! (3 * t + 2)) AND 240)"
      using cells [OF t, of 2] by (simp add: unat_spec_quad)
  qed
qed


theorem still_layout_witness:
  "even (shape_cols \<lparr>shape_rows = 1, shape_cols = 2, tobytes = [0xAB, 0xCD, 0xEF]\<rparr>) \<and>
   (\<exists>out. convert_y12_for_still \<lparr>shape_rows = 1, shape_cols = 2, tobytes = [0xAB, 0xCD, 0xEF]\<rparr> = Inr out \<and>
      length out = 4 \<and> unat (out ! 1) = 0x0A \<and> unat (out ! 0) = 0xBF \<and>
      unat (out ! 3) = 0x0C \<and> unat (out ! 2) = 0xDE)"
proof -
  let ?F = "\<lparr>shape_rows = 1, shape_cols = 2, tobytes = [0xAB, 0xCD, 0xEF]\<rparr>"
  have h1: "even (shape_cols ?F)" by simp
  have h2: "3 * (shape_rows ?F * shape_cols ?F div 2) \<le> length (tobytes ?F)" by simp
  have two: "Suc (Suc 0) = 2" by simp
  from still_layout [OF h1 h2] show ?thesis by (simp add: two)
qed

section \<open>The still routine is invertible on sample pairs\<close>

lemma unat_12_lt: "unat (s::12 word) < 4096"
  using unsigned_less [of s, where ?'a = nat] by simp

lemma unat_pack12:
  "map unat (pack12 s0 s1) = [unat s0 div 16, unat s1 div 16, unat s0 mod 16 + 16 * (unat s1 mod 16)]"
proof -
  have a: "unat s0 div 16 < 256" using unat_12_lt [of s0] by arith
  have b: "unat s1 div 16 < 256" using unat_12_lt [of s1] by arith
  have c: "unat s0 mod 16 + 16 * (unat s1 mod 16) < 256" by arith
  show ?thesis
    unfolding pack12_def list.map by (simp only: unat_of_nat_u8 a b c)
qed

lemma still_triplet:
  "convert_y12_for_still \<lparr>shape_rows = 1, shape_cols = 2, tobytes = [b0, b1, b2]\<rparr> = Inr (spec_quad b0 b1 b2)"
  using still_result [of "\<lparr>shape_rows = 1, shape_cols = 2, tobytes = [b0, b1, b2]\<rparr>"]
  by (simp add: spec_still_def)

lemma unpad16_quad: "unpad16 [a, b, c, d] = [256 * unat b + unat a, 256 * unat d + unat c]"
  by (simp add: push_bit_eq_mult)

lemma unat_spec_quad_arith:
  "map unat (spec_quad b0 b1 b2) =
     [16 * (unat b0 mod 16) + unat b2 mod 16,
      unat b0 div 16 mod 16,
      16 * (unat b1 mod 16) + unat b2 div 16 mod 16,
      unat b1 div 16 mod 16]"
  unfolding unat_spec_quad unfolding lo_shift_nat hi_nibble_nat unfolding and_15_nat ..
lemma nib_split: "(b::nat) < 256 \<Longrightarrow> 256 * (b div 16 mod 16) + 16 * (b mod 16) = 16 * b"
proof -
  assume "b < 256"
  then have h: "b div 16 mod 16 = b div 16" by simp
  define q r where "q = b div 16" and "r = b mod 16"
  have "16 * q + r = b" by (simp add: q_def r_def)
  then have "256 * q + 16 * r = 16 * b" by linarith
  then show ?thesis unfolding h q_def r_def .
qed

lemma nib_hi_small: "(b::nat) < 256 \<Longrightarrow> b div 16 mod 16 = b div 16"
  by simp

lemma unpad_spec_quad:
  "unpad16 (spec_quad b0 b1 b2) =
     [16 * unat b0 + unat b2 mod 16, 16 * unat b1 + unat b2 div 16]"
proof -
  obtain a b c d where abcd: "spec_quad b0 b1 b2 = [a, b, c, d]"
    by (simp add: spec_quad_def)
  have u: "unat a = 16 * (unat b0 mod 16) + unat b2 mod 16"
    "unat b = unat b0 div 16 mod 16"
    "unat c = 16 * (unat b1 mod 16) + unat b2 div 16 mod 16"
    "unat d = unat b1 div 16 mod 16"
    using unat_spec_quad_arith [of b0 b1 b2] unfolding abcd by simp_all
  have "256 * unat b + unat a = 16 * unat b0 + unat b2 mod 16"
    unfolding u using nib_split [OF unat_u8_lt [of b0]] by linarith
  moreover have "256 * unat d + unat c = 16 * unat b1 + unat b2 div 16"
    unfolding u using nib_split [OF unat_u8_lt [of b1]] nib_hi_small [OF unat_u8_lt [of b2]] by linarith
  ultimately show ?thesis unfolding abcd unpad16_quad by simp
qed

lemma still_pair_decode:
  "map_sum id unpad16 (convert_y12_for_still (pair_frame s0 s1)) = Inr [unat s0, unat s1]"
proof -
  obtain b0 b1 b2 where b: "pack12 s0 s1 = [b0, b1, b2]"
    by (simp add: pack12_def)
  have u: "unat b0 = unat s0 div 16" "unat b1 = unat s1 div 16"
    "unat b2 = unat s0 mod 16 + 16 * (unat s1 mod 16)"
    using unat_pack12 [of s0 s1] unfolding b by simp_all
  have x: "16 * (unat s0 div 16) + (unat s0 mod 16 + 16 * (unat s1 mod 16)) mod 16 = unat s0"
    by simp
  have y: "16 * (unat s1 div 16) + (unat s0 mod 16 + 16 * (unat s1 mod 16)) div 16 = unat s1"
    by simp
  show ?thesis
    unfolding pair_frame_def b still_triplet
    by (simp add: unpad_spec_quad u x y)
qed


text \<open>
  C7. For two 12-bit samples packed into one triplet, reading the four output bytes of
  convert\_y12\_for\_still as two little-endian 16-bit values gives back the two samples,
  and two pairs of samples have the same output only when they are the same pair.
\<close>

theorem still_roundtrip:
  "map_sum id unpad16 (convert_y12_for_still (pair_frame s0 s1)) = Inr [unat s0, unat s1] \<and>
   (convert_y12_for_still (pair_frame s0 s1) = convert_y12_for_still (pair_frame t0 t1))
     = (s0 = t0 \<and> s1 = t1)"
proof -
  have "s0 = t0 \<and> s1 = t1"
    if "convert_y12_for_still (pair_frame s0 s1) = convert_y12_for_still (pair_frame t0 t1)"
  proof -
    from that still_pair_decode [of s0 s1] still_pair_decode [of t0 t1]
    have "[unat s0, unat s1] = [unat t0, unat t1]"
      by simp
    then show ?thesis by (simp add: word_unat_eq_iff)
  qed
  then show ?thesis using still_pair_decode [of s0 s1] by blast
qed

section \<open>The Y12 to Y8 unpacker\<close>

lemma length_y12_filter: "length (y12_filter (rows_of_3 bs)) = 2 * (length bs div 3)"
  by (induction bs rule: rows_of_3.induct) (simp_all add: y12_filter_def np_delete_col_def)

lemma y12_filter_Cons3: "y12_filter ([a, b, c] # ts) = a # b # y12_filter ts"
  by (simp add: y12_filter_def np_delete_col_def)

lemma length_pairs: "length (concat (map (\<lambda>t. [f t, g t]) [0..<n])) = 2 * n"
  by (induction n) simp_all

lemma nth_pairs:
  "k < 2 * n \<Longrightarrow> concat (map (\<lambda>t. [f t, g t]) [0..<n]) ! k = (if even k then f (k div 2) else g (k div 2))"
proof (induction n)
  case 0
  then show ?case by simp
next
  case (Suc n)
  show ?case
  proof (cases "k < 2 * n")
    case True
    then show ?thesis using Suc.IH by (simp add: nth_append length_pairs)
  next
    case False
    then have "k = 2 * n \<or> k = Suc (2 * n)" using Suc.prems by arith
    then show ?thesis by (auto simp: nth_append length_pairs)
  qed
qed

lemma y12_filter_nth:
  "k < 2 * (length bs div 3) \<Longrightarrow> y12_filter (rows_of_3 bs) ! k = bs ! (3 * (k div 2) + k mod 2)"
proof (induction bs arbitrary: k rule: rows_of_3.induct)
  case (1 a b c xs)
  show ?case
  proof (cases k)
    case 0
    then show ?thesis by (simp add: y12_filter_Cons3)
  next
    case (Suc k1)
    show ?thesis
    proof (cases k1)
      case 0
      with Suc show ?thesis by (simp add: y12_filter_Cons3)
    next
      case (Suc k2)
      have k: "k = Suc (Suc k2)" using \<open>k = Suc k1\<close> Suc by simp
      have lt: "k2 < 2 * (length xs div 3)" using "1.prems" k by simp
      have idx: "3 * (k div 2) + k mod 2 = Suc (Suc (Suc (3 * (k2 div 2) + k2 mod 2)))"
        unfolding k by simp
      show ?thesis
        unfolding idx using "1.IH" [OF lt] by (simp add: y12_filter_Cons3 k)
    qed
  qed
qed (simp_all)

lemma kept_bytes_eq:
  "length bs mod 3 = 0 \<Longrightarrow> y12_filter (rows_of_3 bs) = kept_bytes bs"
proof (rule nth_equalityI)
  show "length (y12_filter (rows_of_3 bs)) = length (kept_bytes bs)"
    by (simp add: length_y12_filter kept_bytes_def length_pairs)
next
  fix k assume "k < length (y12_filter (rows_of_3 bs))"
  then have k: "k < 2 * (length bs div 3)" by (simp add: length_y12_filter)
  have "kept_bytes bs ! k = bs ! (3 * (k div 2) + k mod 2)"
    unfolding kept_bytes_def using nth_pairs [OF k, of "\<lambda>t. bs ! (3 * t)" "\<lambda>t. bs ! (3 * t + 1)"]
    by (cases "even k") (simp_all add: odd_iff_mod_2_eq_one)
  then show "y12_filter (rows_of_3 bs) ! k = kept_bytes bs ! k"
    using y12_filter_nth [OF k] by simp
qed

lemma fill_rows_none: "hi \<le> lo \<Longrightarrow> fill_rows fb w lo hi cs = cs"
  by (rule nth_equalityI) (auto simp: fill_rows_def)

lemma length_fill_rows: "length (fill_rows fb w lo hi cs) = length cs"
  by (simp add: fill_rows_def)

lemma fill_rows_nth:
  "i < length cs \<Longrightarrow>
   fill_rows fb w lo hi cs ! i = (if lo \<le> i \<and> i < hi then take w (drop (i * w) fb) else cs ! i)"
  by (simp add: fill_rows_def)

lemma fill_rows_step:
  assumes "lo < hi" and "lo < length cs"
  shows "fill_rows fb w (Suc lo) hi (cs[lo := take w (drop (lo * w) fb)]) = fill_rows fb w lo hi cs"
proof (rule nth_equalityI)
  show "length (fill_rows fb w (Suc lo) hi (cs[lo := take w (drop (lo * w) fb)])) = length (fill_rows fb w lo hi cs)"
    by (simp add: length_fill_rows)
next
  fix i assume "i < length (fill_rows fb w (Suc lo) hi (cs[lo := take w (drop (lo * w) fb)]))"
  then have i: "i < length cs" by (simp add: length_fill_rows)
  show "fill_rows fb w (Suc lo) hi (cs[lo := take w (drop (lo * w) fb)]) ! i = fill_rows fb w lo hi cs ! i"
    using i assms by (cases "i = lo") (auto simp: fill_rows_nth)
qed

lemma y12_rows_fill:
  assumes "length (cells a) = nrows a" and "ncols a = w" and "lo \<le> row"
    and "min row (nrows a) * w \<le> length fb"
  shows "y12_rows fb w [lo..<row] (lo * w) (Some a) =
           (if nrows a < row \<and> lo < row then Some IndexError else None,
            Some (a\<lparr>cells := fill_rows fb w lo (min row (nrows a)) (cells a)\<rparr>))"
  using assms
proof (induction "row - lo" arbitrary: lo a)
  case 0
  then have "lo = row" by simp
  then show ?case by (simp add: fill_rows_none)
next
  case (Suc n)
  then have lt: "lo < row" by simp
  show ?case
  proof (cases "lo < nrows a")
    case False
    then have "min row (nrows a) \<le> lo" by simp
    then show ?thesis
      using lt False by (simp add: upt_conv_Cons set_row_def fill_rows_none)
  next
    case True
    let ?slice = "take w (drop (lo * w) fb)"
    let ?a' = "a\<lparr>cells := (cells a)[lo := ?slice]\<rparr>"
    have "Suc lo \<le> min row (nrows a)" using lt True by simp
    then have "Suc lo * w \<le> min row (nrows a) * w" by (rule mult_le_mono1)
    then have "lo * w + w \<le> length fb" using Suc.prems(4) by simp
    then have len: "length ?slice = w" by simp
    have sr: "set_row a lo ?slice = Inr ?a'"
      using True len Suc.prems(2) by (simp add: set_row_def)
    have ih: "y12_rows fb w [Suc lo..<row] (Suc lo * w) (Some ?a') =
           (if nrows ?a' < row \<and> Suc lo < row then Some IndexError else None,
            Some (?a'\<lparr>cells := fill_rows fb w (Suc lo) (min row (nrows ?a')) (cells ?a')\<rparr>))"
      using Suc.hyps(2) Suc.prems lt by (intro Suc.hyps(1)) simp_all
    have fr: "fill_rows fb w (Suc lo) (min row (nrows a)) ((cells a)[lo := ?slice])
              = fill_rows fb w lo (min row (nrows a)) (cells a)"
      using lt True Suc.prems(1) by (intro fill_rows_step) simp_all
    have cond: "(nrows a < row \<and> Suc lo < row) = (nrows a < row \<and> lo < row)"
      using True by auto
    have m: "lo * w + w = Suc lo * w" by simp
    show ?thesis
      using lt by (simp only: upt_conv_Cons y12_rows.simps option.case sr sum.case m ih)
        (simp add: fr cond)
  qed
qed

lemma kept_bytes_nth:
  "k < 2 * (length raw div 3) \<Longrightarrow> kept_bytes raw ! k = raw ! (3 * (k div 2) + k mod 2)"
  unfolding kept_bytes_def
  using nth_pairs [of k "length raw div 3" "\<lambda>t. raw ! (3 * t)" "\<lambda>t. raw ! (3 * t + 1)"]
  by (cases "even k") (simp_all add: odd_iff_mod_2_eq_one)

lemma length_kept_bytes: "length (kept_bytes raw) = 2 * (length raw div 3)"
  by (simp add: kept_bytes_def length_pairs)

lemma convert_y12_general:
  assumes "y8_frame cls = Some a" and "length (cells a) = nrows a" and "ncols a = shape_cols f"
    and "length (tobytes f) mod 3 = 0"
    and "min (shape_rows f) (nrows a) * shape_cols f \<le> 2 * (length (tobytes f) div 3)"
  shows "convert_y12_to_y8 cls f =
           (if nrows a < shape_rows f then Inl IndexError
            else Inr (Gray (a\<lparr>cells := fill_rows (kept_bytes (tobytes f)) (shape_cols f) 0
                                   (min (shape_rows f) (nrows a)) (cells a)\<rparr>)),
            cls\<lparr>y8_frame := Some (a\<lparr>cells := fill_rows (kept_bytes (tobytes f)) (shape_cols f) 0
                                   (min (shape_rows f) (nrows a)) (cells a)\<rparr>)\<rparr>)"
proof -
  have rs: "np_reshape_3 (tobytes f) = Inr (rows_of_3 (tobytes f))"
    using assms(4) by (simp add: np_reshape_3_def)
  have kb: "y12_filter (rows_of_3 (tobytes f)) = kept_bytes (tobytes f)"
    using assms(4) by (rule kept_bytes_eq)
  have loop: "y12_rows (kept_bytes (tobytes f)) (shape_cols f) [0..<shape_rows f] (0 * shape_cols f) (Some a) =
           (if nrows a < shape_rows f \<and> 0 < shape_rows f then Some IndexError else None,
            Some (a\<lparr>cells := fill_rows (kept_bytes (tobytes f)) (shape_cols f) 0
                                   (min (shape_rows f) (nrows a)) (cells a)\<rparr>))"
    using assms by (intro y12_rows_fill) (simp_all add: length_kept_bytes)
  have z: "(nrows a < shape_rows f \<and> 0 < shape_rows f) = (nrows a < shape_rows f)" by auto
  show ?thesis
    using loop unfolding z
    by (simp add: convert_y12_to_y8_def Let_def rs kb assms(1))
qed

lemma length_pack12_all: "length (pack12_all ss) = 3 * (length ss div 2)"
  by (induction ss rule: pack12_all.induct) (simp_all add: pack12_def)

lemma pack12_all_nth:
  "even (length ss) \<Longrightarrow> k < length ss \<Longrightarrow>
   pack12_all ss ! (3 * (k div 2) + k mod 2) = high_byte (ss ! k)"
proof (induction ss arbitrary: k rule: pack12_all.induct)
  case (1 s0 s1 ss)
  show ?case
  proof (cases k)
    case 0
    then show ?thesis by (simp add: pack12_def high_byte_def)
  next
    case (Suc k1)
    show ?thesis
    proof (cases k1)
      case 0
      with Suc show ?thesis by (simp add: pack12_def high_byte_def)
    next
      case (Suc k2)
      have k: "k = Suc (Suc k2)" using \<open>k = Suc k1\<close> Suc by simp
      have lt: "k2 < length ss" using "1.prems" k by simp
      have ev: "even (length ss)" using "1.prems" by simp
      have idx: "3 * (k div 2) + k mod 2 = Suc (Suc (Suc (3 * (k2 div 2) + k2 mod 2)))"
        unfolding k by simp
      show ?thesis
        unfolding idx using "1.IH" [OF ev lt] by (simp add: pack12_def k)
    qed
  qed
qed (simp_all)

lemma cell_index: "i < r \<Longrightarrow> j < (c::nat) \<Longrightarrow> i * c + j < r * c"
proof -
  assume "i < r" "j < c"
  then have "i * c + j < Suc i * c" by simp
  also have "\<dots> \<le> r * c" using \<open>i < r\<close> by (intro mult_le_mono1) simp
  finally show ?thesis .
qed

lemma fill_rows_all:
  "length cs = n \<Longrightarrow> fill_rows fb w 0 n cs = map (\<lambda>i. take w (drop (i * w) fb)) [0..<n]"
  by (rule nth_equalityI) (auto simp: fill_rows_def)

lemma triplet_index:
  assumes "k < n" and "even (n::nat)"
  shows "3 * (k div 2) + k mod 2 < 3 * (n div 2)"
proof -
  from assms(2) obtain m where n: "n = 2 * m" by (auto elim: evenE)
  define q r where "q = k div 2" and "r = k mod 2"
  have "q < m" using assms(1) unfolding n q_def by simp
  moreover have "r < 2" unfolding r_def by simp
  ultimately have "3 * q + r < 3 * m" by linarith
  then show ?thesis unfolding n q_def r_def by simp
qed

text \<open>
  C5 (amended). With the session buffer of the frame's shape and a byte count that is a
  multiple of 3 and holds rows * columns kept bytes, convert\_y12\_to\_y8 flattens the
  frame, groups it into triplets, drops the third byte (index 2) of every triplet, not the
  middle one, and writes the kept bytes row by row, column bytes per row, into the
  session buffer, which it returns.
\<close>

theorem y12_to_y8_drops_third_byte:
  assumes "y8_frame cls = Some a" and "shape_ok a"
    and "nrows a = shape_rows f" and "ncols a = shape_cols f"
    and "length (tobytes f) mod 3 = 0"
    and "shape_rows f * shape_cols f \<le> 2 * (length (tobytes f) div 3)"
  shows "\<exists>g. convert_y12_to_y8 cls f = (Inr (Gray g), cls\<lparr>y8_frame := Some g\<rparr>) \<and>
           nrows g = shape_rows f \<and> ncols g = shape_cols f \<and>
           cells g = map (\<lambda>i. take (shape_cols f) (drop (i * shape_cols f) (kept_bytes (tobytes f))))
                       [0..<shape_rows f]"
proof -
  have len: "length (cells a) = nrows a" using assms(2) by (simp add: shape_ok_def)
  have enough: "min (shape_rows f) (nrows a) * shape_cols f \<le> 2 * (length (tobytes f) div 3)"
    using assms(3,6) by simp
  let ?g = "a\<lparr>cells := map (\<lambda>i. take (shape_cols f) (drop (i * shape_cols f) (kept_bytes (tobytes f))))
                       [0..<shape_rows f]\<rparr>"
  have res: "convert_y12_to_y8 cls f = (Inr (Gray ?g), cls\<lparr>y8_frame := Some ?g\<rparr>)"
    using convert_y12_general [OF assms(1) len assms(4) assms(5) enough] assms(3) len
    by (simp add: fill_rows_all)
  show ?thesis
    using res assms(3,4) by (intro exI [of _ ?g]) simp
qed

text \<open>
  C1. For a frame of rows * columns 12-bit samples packed two to a triplet (possibly
  followed by unused bytes, a multiple of 3), and a session buffer of the frame's shape,
  convert\_y12\_to\_y8 returns the session buffer as a rows by columns grid whose entry
  (i, j) is the upper eight bits of sample i * columns + j.
\<close>

theorem y12_to_y8_high_bytes:
  assumes "y8_frame cls = Some a" and "shape_ok a"
    and "nrows a = shape_rows f" and "ncols a = shape_cols f"
    and "length ss = shape_rows f * shape_cols f" and "even (length ss)"
    and "tobytes f = pack12_all ss @ rest" and "length rest mod 3 = 0"
  shows "\<exists>g. convert_y12_to_y8 cls f = (Inr (Gray g), cls\<lparr>y8_frame := Some g\<rparr>) \<and>
           nrows g = shape_rows f \<and> ncols g = shape_cols f \<and> length (cells g) = shape_rows f \<and>
           (\<forall>i < shape_rows f. length (cells g ! i) = shape_cols f \<and>
              (\<forall>j < shape_cols f. cells g ! i ! j = high_byte (ss ! (i * shape_cols f + j))))"
proof -
  let ?raw = "tobytes f" and ?r = "shape_rows f" and ?c = "shape_cols f"
  let ?kept = "kept_bytes ?raw"
  let ?g = "a\<lparr>cells := map (\<lambda>i. take ?c (drop (i * ?c) ?kept)) [0..<?r]\<rparr>"
  have len: "length (cells a) = nrows a" using assms(2) by (simp add: shape_ok_def)
  have lraw: "length ?raw = 3 * (length ss div 2) + length rest"
    by (simp add: assms(7) length_pack12_all)
  have m3: "length ?raw mod 3 = 0" using assms(8) by (simp add: lraw)
  have d3: "length ?raw div 3 = length ss div 2 + length rest div 3"
    using assms(8) by (simp add: lraw)
  have lk: "length ?kept = length ss + 2 * (length rest div 3)"
    using assms(6) by (simp add: length_kept_bytes d3)
  have enough: "min ?r (nrows a) * ?c \<le> 2 * (length ?raw div 3)"
    using lk assms(3,5) by (simp add: length_kept_bytes)
  have res: "convert_y12_to_y8 cls f = (Inr (Gray ?g), cls\<lparr>y8_frame := Some ?g\<rparr>)"
    using convert_y12_general [OF assms(1) len assms(4) m3 enough] assms(3) len
    by (simp add: fill_rows_all)
  have cell: "length (cells ?g ! i) = ?c \<and> (\<forall>j < ?c. cells ?g ! i ! j = high_byte (ss ! (i * ?c + j)))"
    if i: "i < ?r" for i
  proof -
    have "Suc i * ?c \<le> ?r * ?c" using i by (intro mult_le_mono1) simp
    then have fit: "i * ?c + ?c \<le> length ?kept" using lk assms(5) by simp
    have row: "cells ?g ! i = take ?c (drop (i * ?c) ?kept)" using i by simp
    have "cells ?g ! i ! j = high_byte (ss ! (i * ?c + j))" if j: "j < ?c" for j
    proof -
      let ?k = "i * ?c + j"
      have k: "?k < length ss" using cell_index [OF i j] assms(5) by simp
      then have k2: "?k < 2 * (length ?raw div 3)" using lk by (simp add: length_kept_bytes)
      have inb: "3 * (?k div 2) + ?k mod 2 < length (pack12_all ss)"
        using triplet_index [OF k assms(6)] by (simp add: length_pack12_all)
      have "cells ?g ! i ! j = ?kept ! ?k" using row j fit by simp
      also have "\<dots> = ?raw ! (3 * (?k div 2) + ?k mod 2)" using k2 by (rule kept_bytes_nth)
      also have "\<dots> = pack12_all ss ! (3 * (?k div 2) + ?k mod 2)"
        using inb by (simp add: assms(7) nth_append)
      also have "\<dots> = high_byte (ss ! ?k)" using assms(6) k by (rule pack12_all_nth)
      finally show ?thesis .
    qed
    then show ?thesis using row fit by simp
  qed
  show ?thesis
    using res cell assms(3,4) by (intro exI [of _ ?g]) simp
qed

lemma y8_frame_init:
  "y8_frame (init_conversion cls (fmt, w, h, fps) dev) = Some (zeros2 h w)"
  by (simp add: init_conversion_def Let_def)

lemma shape_ok_zeros2: "shape_ok (zeros2 h w)"
  by (simp add: shape_ok_def zeros2_def list_all_length)

theorem y12_to_y8_high_bytes_witness:
  "\<exists>g. (convert_y12_to_y8 (init_conversion class_defaults (''Y12 '', 2, 1, 30) ''See3CAM_CU55M'')
            \<lparr>shape_rows = 1, shape_cols = 2, tobytes = pack12_all [0xABC, 0xDEF]\<rparr>
          :: (error + unit pyval) \<times> conv_state)
        = (Inr (Gray g),
           (init_conversion class_defaults (''Y12 '', 2, 1, 30) ''See3CAM_CU55M'')\<lparr>y8_frame := Some g\<rparr>) \<and>
        nrows g = 1 \<and> ncols g = 2 \<and> cells g ! 0 ! 0 = 0xAB \<and> cells g ! 0 ! 1 = 0xDE"
proof -
  let ?cls = "init_conversion class_defaults (''Y12 '', 2, 1, 30) ''See3CAM_CU55M''"
  let ?f = "\<lparr>shape_rows = 1, shape_cols = 2, tobytes = pack12_all [0xABC, 0xDEF]\<rparr>"
  have h1: "y8_frame ?cls = Some (zeros2 1 2)" by (rule y8_frame_init)
  have h2: "shape_ok (zeros2 1 2)" by (rule shape_ok_zeros2)
  have h3: "nrows (zeros2 1 2) = shape_rows ?f" "ncols (zeros2 1 2) = shape_cols ?f"
    by (simp_all add: zeros2_def)
  have h5: "length [0xABC, 0xDEF :: 12 word] = shape_rows ?f * shape_cols ?f" by simp
  have h6: "even (length [0xABC, 0xDEF :: 12 word])" by simp
  have h7: "tobytes ?f = pack12_all [0xABC, 0xDEF] @ []" by simp
  have h8: "length ([] :: u8 list) mod 3 = 0" by simp
  from y12_to_y8_high_bytes [OF h1 h2 h3 h5 h6 h7 h8, where ?'a = unit]
  obtain g where res: "convert_y12_to_y8 ?cls ?f = (Inr (Gray g :: unit pyval), ?cls\<lparr>y8_frame := Some g\<rparr>)"
    and shape: "nrows g = shape_rows ?f" "ncols g = shape_cols ?f"
    and cell: "\<forall>i < shape_rows ?f. length (cells g ! i) = shape_cols ?f \<and>
                (\<forall>j < shape_cols ?f. cells g ! i ! j = high_byte ([0xABC, 0xDEF] ! (i * shape_cols ?f + j)))"
    by blast
  from cell have "cells g ! 0 ! 0 = high_byte 0xABC" and "cells g ! 0 ! 1 = high_byte 0xDEF"
    by simp_all
  then have "cells g ! 0 ! 0 = 0xAB" and "cells g ! 0 ! 1 = 0xDE"
    by (simp_all add: high_byte_def)
  with res shape show ?thesis by (intro exI [of _ g]) simp
qed

theorem y12_to_y8_drops_third_byte_witness:
  "\<exists>g. (convert_y12_to_y8 (init_conversion class_defaults (''Y12 '', 2, 1, 30) ''See3CAM_CU55M'')
            \<lparr>shape_rows = 1, shape_cols = 2, tobytes = [1, 2, 3]\<rparr>
          :: (error + unit pyval) \<times> conv_state)
        = (Inr (Gray g),
           (init_conversion class_defaults (''Y12 '', 2, 1, 30) ''See3CAM_CU55M'')\<lparr>y8_frame := Some g\<rparr>) \<and>
        cells g = [[1, 2]]"
proof -
  let ?cls = "init_conversion class_defaults (''Y12 '', 2, 1, 30) ''See3CAM_CU55M''"
  let ?f = "\<lparr>shape_rows = 1, shape_cols = 2, tobytes = [1, 2, 3]\<rparr>"
  have h1: "y8_frame ?cls = Some (zeros2 1 2)" by (rule y8_frame_init)
  have h2: "shape_ok (zeros2 1 2)" by (rule shape_ok_zeros2)
  have h3: "nrows (zeros2 1 2) = shape_rows ?f" "ncols (zeros2 1 2) = shape_cols ?f"
    by (simp_all add: zeros2_def)
  have h5: "length (tobytes ?f) mod 3 = 0" by simp
  have h6: "shape_rows ?f * shape_cols ?f \<le> 2 * (length (tobytes ?f) div 3)" by simp
  from y12_to_y8_drops_third_byte [OF h1 h2 h3 h5 h6, where ?'a = unit]
  obtain g where res: "convert_y12_to_y8 ?cls ?f = (Inr (Gray g :: unit pyval), ?cls\<lparr>y8_frame := Some g\<rparr>)"
    and rows: "cells g = map (\<lambda>i. take (shape_cols ?f) (drop (i * shape_cols ?f) (kept_bytes (tobytes ?f))))
                       [0..<shape_rows ?f]"
    by blast
  from rows have "cells g = [[1, 2]]" by (simp add: kept_bytes_def)
  with res show ?thesis by (intro exI [of _ g]) simp
qed

text \<open>
  The triplet (1, 2, 3): the code keeps 1 and 2; dropping the middle byte would keep 1
  and 3.
\<close>

theorem y12_to_y8_keeps_middle_byte:
  "fst (convert_y12_to_y8 (init_conversion class_defaults (''Y12 '', 2, 1, 30) ''See3CAM_CU55M'')
            \<lparr>shape_rows = 1, shape_cols = 2, tobytes = [1, 2, 3]\<rparr>
          :: (error + unit pyval) \<times> conv_state)
     = Inr (Gray \<lparr>nrows = 1, ncols = 2, cells = [[1, 2]]\<rparr>) \<and>
   spec_unpack_rows 1 2 [1, 2, 3] = [[1, 3]]"
  by code_simp


text \<open>
  A one-column frame against a 1 by 2 session buffer: NumPy broadcasts the single byte
  over the row, and the call succeeds.
\<close>

theorem y12_one_column_broadcast:
  "(convert_y12_to_y8 (init_conversion class_defaults (''Y12 '', 2, 1, 30) ''See3CAM_CU55M'')
            \<lparr>shape_rows = 1, shape_cols = 1, tobytes = [7, 8, 9]\<rparr>
          :: (error + unit pyval) \<times> conv_state)
     = (Inr (Gray \<lparr>nrows = 1, ncols = 2, cells = [[7, 7]]\<rparr>),
        \<lparr>format_type = FmtStr ''Y12 '', y16CameraFlag = - 1,
         y8_frame = Some \<lparr>nrows = 1, ncols = 2, cells = [[7, 7]]\<rparr>\<rparr>)"
  by code_simp




section \<open>The dispatcher and the Y16 routine\<close>

text \<open>
  C3. With a session format other than UYVY and YUY2 and a tag that is neither "Y12 " nor
  "Y16 ", convert\_frame takes the default of the dispatch table, a lambda without
  parameters, and calls it with the frame: the call raises TypeError, the string "Invalid
  Selection" is never delivered, and the class state is unchanged.
\<close>

theorem convert_frame_unknown_tag:
  assumes "format_type cls \<noteq> FmtStr ''UYVY''" and "format_type cls \<noteq> FmtStr ''YUY2''"
    and "frame_format \<noteq> ''Y12 ''" and "frame_format \<noteq> ''Y16 ''"
  shows "convert_frame cv cls frame frame_format = (Inl TypeError, cls)"
  using assms by (simp add: convert_frame_def convert_func_def dict_get_def)

theorem convert_frame_unknown_tag_witness:
  "convert_frame example_cv2 (init_conversion class_defaults (''Y12 '', 640, 480, 30) ''See3CAM_CU55M'')
     \<lparr>shape_rows = 0, shape_cols = 0, tobytes = []\<rparr> ''XYZZ''
   = (Inl TypeError, init_conversion class_defaults (''Y12 '', 640, 480, 30) ''See3CAM_CU55M'')"
proof -
  let ?cls = "init_conversion class_defaults (''Y12 '', 640, 480, 30) ''See3CAM_CU55M''"
  have f: "format_type ?cls = FmtStr ''Y12 ''"
    by (simp add: init_conversion_def Let_def V4L2_PIX_FMT_Y16_def)
  have h1: "format_type ?cls \<noteq> FmtStr ''UYVY''" and h2: "format_type ?cls \<noteq> FmtStr ''YUY2''"
    unfolding f by simp_all
  have h3: "''XYZZ'' \<noteq> ''Y12 ''" and h4: "''XYZZ'' \<noteq> ''Y16 ''" by simp_all
  show ?thesis by (rule convert_frame_unknown_tag [OF h1 h2 h3 h4])
qed

text \<open>
  C10. When the session format is "UYVY" or "YUY2", convert\_frame returns what
  cv2.cvtColor makes of the frame with the matching YUV-to-BGR code, whatever the tag
  argument is; the tag selects a routine only when the session format is neither.
\<close>

theorem convert_frame_session_yuv:
  "(format_type cls = FmtStr ''UYVY'' \<longrightarrow>
      convert_frame cv cls frame frame_format =
        (thenE (cvtColor_frame cv frame COLOR_YUV2BGR_UYVY) (\<lambda>img. Inr (Image img)), cls)) \<and>
   (format_type cls = FmtStr ''YUY2'' \<longrightarrow>
      convert_frame cv cls frame frame_format =
        (thenE (cvtColor_frame cv frame COLOR_YUV2BGR_YUY2) (\<lambda>img. Inr (Image img)), cls)) \<and>
   (format_type cls \<noteq> FmtStr ''UYVY'' \<and> format_type cls \<noteq> FmtStr ''YUY2'' \<longrightarrow>
      convert_frame cv cls frame frame_format =
        (if frame_format = ''Y12 '' then convert_y12_to_y8 cls frame
         else if frame_format = ''Y16 '' then (convert_y16_to_rgb cv cls frame, cls)
         else (Inl TypeError, cls)))"
  by (simp add: convert_frame_def convert_func_def dict_get_def)

theorem convert_frame_session_yuv_witness:
  "convert_frame example_cv2 (init_conversion class_defaults (''UYVY'', 2, 1, 30) ''See3CAM_CU55M'')
     \<lparr>shape_rows = 1, shape_cols = 2, tobytes = [1, 2, 3]\<rparr> ''Y12 ''
   = (Inr (Image COLOR_YUV2BGR_UYVY), init_conversion class_defaults (''UYVY'', 2, 1, 30) ''See3CAM_CU55M'') \<and>
   convert_frame example_cv2 (init_conversion class_defaults (''YUY2'', 2, 1, 30) ''See3CAM_CU55M'')
     \<lparr>shape_rows = 1, shape_cols = 2, tobytes = [1, 2, 3]\<rparr> ''XYZZ''
   = (Inr (Image COLOR_YUV2BGR_YUY2), init_conversion class_defaults (''YUY2'', 2, 1, 30) ''See3CAM_CU55M'') \<and>
   convert_frame example_cv2 (init_conversion class_defaults (''Y12 '', 2, 1, 30) ''See3CAM_CU55M'')
     \<lparr>shape_rows = 1, shape_cols = 2, tobytes = [1, 2, 3]\<rparr> ''Y12 ''
   = convert_y12_to_y8 (init_conversion class_defaults (''Y12 '', 2, 1, 30) ''See3CAM_CU55M'')
       \<lparr>shape_rows = 1, shape_cols = 2, tobytes = [1, 2, 3]\<rparr>"
proof -
  let ?u = "init_conversion class_defaults (''UYVY'', 2, 1, 30) ''See3CAM_CU55M''"
  let ?y = "init_conversion class_defaults (''YUY2'', 2, 1, 30) ''See3CAM_CU55M''"
  let ?g = "init_conversion class_defaults (''Y12 '', 2, 1, 30) ''See3CAM_CU55M''"
  let ?f = "\<lparr>shape_rows = 1, shape_cols = 2, tobytes = [1, 2, 3]\<rparr>"
  have fu: "format_type ?u = FmtStr ''UYVY''" by (simp add: init_conversion_def Let_def)
  have fy: "format_type ?y = FmtStr ''YUY2''" by (simp add: init_conversion_def Let_def)
  have fg: "format_type ?g \<noteq> FmtStr ''UYVY'' \<and> format_type ?g \<noteq> FmtStr ''YUY2''"
    by (simp add: init_conversion_def Let_def V4L2_PIX_FMT_Y16_def)
  have a: "convert_frame example_cv2 ?u ?f ''Y12 '' = (Inr (Image COLOR_YUV2BGR_UYVY), ?u)"
    using convert_frame_session_yuv [of ?u example_cv2 ?f "''Y12 ''", THEN conjunct1, rule_format, OF fu]
    by (simp add: example_cv2_def thenE_def)
  have b: "convert_frame example_cv2 ?y ?f ''XYZZ'' = (Inr (Image COLOR_YUV2BGR_YUY2), ?y)"
    using convert_frame_session_yuv [of ?y example_cv2 ?f "''XYZZ''", THEN conjunct2, THEN conjunct1, rule_format, OF fy]
    by (simp add: example_cv2_def thenE_def)
  have c: "convert_frame example_cv2 ?g ?f ''Y12 '' = convert_y12_to_y8 ?g ?f"
    using convert_frame_session_yuv [of ?g example_cv2 ?f "''Y12 ''", THEN conjunct2, THEN conjunct2, rule_format, OF fg]
    by simp
  from a b c show ?thesis by simp
qed

text \<open>
  C4 (amended). With a camera flag that is none of the three known variants,
  convert\_y16\_to\_rgb raises nothing and calls nothing: it returns None.
\<close>

theorem y16_unknown_flag_returns_none:
  assumes "y16CameraFlag cls \<noteq> SEE3CAM_20CUG" and "y16CameraFlag cls \<noteq> SEE3CAM_CU40"
    and "y16CameraFlag cls \<noteq> OTHER_Y16CAMERAS"
  shows "convert_y16_to_rgb cv cls frame = Inr PyNone"
  using assms by (simp add: convert_y16_to_rgb_def)

theorem y16_unknown_flag_returns_none_witness:
  "convert_y16_to_rgb example_cv2 (init_conversion class_defaults (''Y12 '', 2, 1, 30) ''See3CAM_20CUG'')
     \<lparr>shape_rows = 1, shape_cols = 2, tobytes = [1, 2, 3, 4]\<rparr> = Inr PyNone"
proof -
  let ?cls = "init_conversion class_defaults (''Y12 '', 2, 1, 30) ''See3CAM_20CUG''"
  have f: "y16CameraFlag ?cls = - 1"
    by (simp add: init_conversion_def Let_def V4L2_PIX_FMT_Y16_def class_defaults_def)
  have h: "y16CameraFlag ?cls \<noteq> SEE3CAM_20CUG" "y16CameraFlag ?cls \<noteq> SEE3CAM_CU40"
    "y16CameraFlag ?cls \<noteq> OTHER_Y16CAMERAS"
    unfolding f by (simp_all add: SEE3CAM_20CUG_def SEE3CAM_CU40_def OTHER_Y16CAMERAS_def)
  show ?thesis by (rule y16_unknown_flag_returns_none [OF h])
qed

text \<open>
  The class defaults (flag -1), and a session initialised for Y12 that is then handed a
  "Y16 " frame: the result is None, not an error.
\<close>

theorem y16_uninitialised_no_error:
  "y16CameraFlag class_defaults = - 1 \<and>
   convert_y16_to_rgb example_cv2 class_defaults \<lparr>shape_rows = 1, shape_cols = 2, tobytes = [1, 2, 3, 4]\<rparr>
     = Inr PyNone \<and>
   fst (convert_frame example_cv2 (init_conversion class_defaults (''Y12 '', 2, 1, 30) ''See3CAM_20CUG'')
     \<lparr>shape_rows = 1, shape_cols = 2, tobytes = [1, 2, 3, 4]\<rparr> ''Y16 '') = Inr PyNone"
  by (simp add: convert_y16_to_rgb_def class_defaults_def SEE3CAM_20CUG_def SEE3CAM_CU40_def
      OTHER_Y16CAMERAS_def convert_frame_def convert_func_def dict_get_def init_conversion_def Let_def
      V4L2_PIX_FMT_Y16_def)

text \<open>
  C6. convert\_RGIR\_to\_RGGB never returns a pair: once the grid is scaled, the
  duplication \<^verbatim>\<open>bayer_RGIR.clone()\<close> raises AttributeError, for every frame and
  whatever cv2 computes.
\<close>

theorem rgir_always_fails:
  "convert_RGIR_to_RGGB cv frame =
     thenE (convertScaleAbs cv frame (249023 / 1000000)) (\<lambda>bayer_RGIR. Inl AttributeError) \<and>
   convert_RGIR_to_RGGB cv frame \<noteq> Inr (Pair rgb_frame ir_frame)"
  by (cases "convertScaleAbs cv frame (249023 / 1000000)")
     (simp_all add: convert_RGIR_to_RGGB_def ndarray_clone_def thenE_def Let_def)

text \<open>The 2 by 2 grid of one value, called directly and through the Y16 routine.\<close>

theorem rgir_uniform_fails:
  "convert_RGIR_to_RGGB example_cv2 \<lparr>shape_rows = 2, shape_cols = 2, tobytes = [7, 0, 7, 0, 7, 0, 7, 0]\<rparr>
     = Inl AttributeError \<and>
   convert_y16_to_rgb example_cv2 (init_conversion class_defaults (''Y16 '', 2, 2, 30) ''See3CAM_CU40'')
     \<lparr>shape_rows = 2, shape_cols = 2, tobytes = [7, 0, 7, 0, 7, 0, 7, 0]\<rparr> = Inl AttributeError"
  by code_simp

section \<open>The demosaic loop on a uniform grid\<close>

text \<open>
  Lines 158 to 166 on their own, handed a uniform scaled grid and a duplicate of it (even
  dimensions): the buffer given to the Bayer conversion is still the uniform grid, and the
  infrared frame is the rows/2 by columns/2 grid of the scaled value. This is what the
  routine would return if the duplication at line 156 succeeded.
\<close>

lemma range_step_2: "range_step (2 * c) 2 = map (\<lambda>k. k * 2) [0..<c]"
  by (simp add: range_step_def)

lemma get2_uniform: "i < h \<Longrightarrow> j < w \<Longrightarrow> get2 (uniform h w v) i j = Inr v"
  by (simp add: get2_def uniform_def)

lemma set2_uniform: "i < h \<Longrightarrow> j < w \<Longrightarrow> set2 (uniform h w v) i j v = Inr (uniform h w v)"
proof -
  assume i: "i < h" and j: "j < w"
  have "(replicate w v)[j := v] = replicate w v"
    using list_update_id [of "replicate w v" j] j by simp
  moreover have "(replicate h (replicate w v))[i := replicate w v] = replicate h (replicate w v)"
    using list_update_id [of "replicate h (replicate w v)" i] i by simp
  ultimately show ?thesis using i j by (simp add: set2_def uniform_def)
qed

lemma ir_state_0: "ir_state R C v 0 = zeros2 R C"
  by (simp add: ir_state_def zeros2_def map_replicate_const)

lemma ir_state_full: "ir_state R C v (R * C) = uniform R C v"
proof -
  have "a * C + b < R * C" if "a < R" "b < C" for a b
  proof -
    have "a * C + b < Suc a * C" using that by simp
    also have "\<dots> \<le> R * C" using that by (intro mult_le_mono1) simp
    finally show ?thesis .
  qed
  then have "map (\<lambda>a. map (\<lambda>b. if a * C + b < R * C then v else 0) [0..<C]) [0..<R]
      = map (\<lambda>a. map (\<lambda>b. v) [0..<C]) [0..<R]"
    by (intro map_cong) auto
  then show ?thesis
    by (simp add: ir_state_def uniform_def map_replicate_const)
qed

lemma cell_unique:
  assumes "b < C" and "b' < (C::nat)" and "a' * C + b' = a * C + b"
  shows "a' = a \<and> b' = b"
proof -
  have "a' = (a' * C + b') div C" using assms(2) by simp
  also have "\<dots> = (a * C + b) div C" by (simp only: assms(3))
  also have "\<dots> = a" using assms(1) by simp
  finally have "a' = a" .
  then show ?thesis using assms(3) by simp
qed

lemma cell_lt_iff:
  assumes "b < C" and "b' < (C::nat)"
  shows "(a' * C + b' < Suc (a * C + b)) = (a' * C + b' < a * C + b \<or> (a' = a \<and> b' = b))"
  using cell_unique [OF assms, of a' a] by auto

lemma set2_ir_state:
  assumes "a < R" and "b < C"
  shows "set2 (ir_state R C v (a * C + b)) a b v = Inr (ir_state R C v (Suc (a * C + b)))"
proof -
  let ?old = "cells (ir_state R C v (a * C + b))"
  let ?new = "cells (ir_state R C v (Suc (a * C + b)))"
  have "?old[a := (?old ! a)[b := v]] = ?new"
  proof (rule nth_equalityI)
    show "length (?old[a := (?old ! a)[b := v]]) = length ?new" by (simp add: ir_state_def)
  next
    fix a' assume "a' < length (?old[a := (?old ! a)[b := v]])"
    then have a': "a' < R" by (simp add: ir_state_def)
    show "?old[a := (?old ! a)[b := v]] ! a' = ?new ! a'"
    proof (rule nth_equalityI)
      show "length (?old[a := (?old ! a)[b := v]] ! a') = length (?new ! a')"
        using a' assms by (simp add: ir_state_def nth_list_update)
    next
      fix b' assume "b' < length (?old[a := (?old ! a)[b := v]] ! a')"
      then have b': "b' < C" using a' assms by (simp add: ir_state_def nth_list_update split: if_splits)
      show "?old[a := (?old ! a)[b := v]] ! a' ! b' = ?new ! a' ! b'"
        using a' b' assms cell_lt_iff [OF assms(2) b', of a' a]
        by (auto simp: ir_state_def nth_list_update)
    qed
  qed
  then show ?thesis
    using assms by (simp add: set2_def ir_state_def)
qed

lemma rgir_body_uniform:
  assumes "a < R" and "b < C"
  shows "rgir_body (uniform (2 * R) (2 * C) v) (a * 2) (b * 2)
           (uniform (2 * R) (2 * C) v, ir_state R C v (a * C + b))
         = Inr (uniform (2 * R) (2 * C) v, ir_state R C v (Suc (a * C + b)))"
proof -
  have i: "a * 2 < 2 * R" "Suc (a * 2) < 2 * R" and j: "b * 2 < 2 * C" "Suc (b * 2) < 2 * C"
    using assms by simp_all
  show ?thesis
    unfolding rgir_body_def
    by (simp add: get2_uniform [OF i(1) j(2)] get2_uniform [OF i(2) j(1)]
        set2_uniform [OF i(2) j(1)] set2_ir_state [OF assms] thenE_def)
qed

lemma rgir_inner:
  assumes "a < R" and "b \<le> C"
  shows "for_each (map (\<lambda>k. k * 2) [b..<C]) (\<lambda>j. rgir_body (uniform (2 * R) (2 * C) v) (a * 2) j)
           (uniform (2 * R) (2 * C) v, ir_state R C v (a * C + b))
         = Inr (uniform (2 * R) (2 * C) v, ir_state R C v (a * C + C))"
  using assms
proof (induction "C - b" arbitrary: b)
  case 0
  then show ?case by simp
next
  case (Suc n)
  then have bc: "b < C" by simp
  have rest: "for_each (map (\<lambda>k. k * 2) [Suc b..<C]) (\<lambda>j. rgir_body (uniform (2 * R) (2 * C) v) (a * 2) j)
           (uniform (2 * R) (2 * C) v, ir_state R C v (a * C + Suc b))
         = Inr (uniform (2 * R) (2 * C) v, ir_state R C v (a * C + C))"
    using Suc.hyps(1) [of "Suc b"] Suc.hyps(2) bc Suc.prems by simp
  show ?case
    using bc rest rgir_body_uniform [OF Suc.prems(1) bc, of v]
    by (simp add: upt_conv_Cons thenE_def)
qed

lemma rgir_outer:
  assumes "a \<le> R"
  shows "for_each [a..<R]
           (\<lambda>k. for_each (map (\<lambda>k. k * 2) [0..<C]) (\<lambda>j. rgir_body (uniform (2 * R) (2 * C) v) (k * 2) j))
           (uniform (2 * R) (2 * C) v, ir_state R C v (a * C))
         = Inr (uniform (2 * R) (2 * C) v, ir_state R C v (R * C))"
  using assms
proof (induction "R - a" arbitrary: a)
  case 0
  then show ?case by simp
next
  case (Suc n)
  then have ar: "a < R" by simp
  have inner: "for_each (map (\<lambda>k. k * 2) [0..<C]) (\<lambda>j. rgir_body (uniform (2 * R) (2 * C) v) (a * 2) j)
           (uniform (2 * R) (2 * C) v, ir_state R C v (a * C))
         = Inr (uniform (2 * R) (2 * C) v, ir_state R C v (Suc a * C))"
    using rgir_inner [OF ar, of 0 C v] by (simp add: add.commute)
  have rest: "for_each [Suc a..<R]
           (\<lambda>k. for_each (map (\<lambda>k. k * 2) [0..<C]) (\<lambda>j. rgir_body (uniform (2 * R) (2 * C) v) (k * 2) j))
           (uniform (2 * R) (2 * C) v, ir_state R C v (Suc a * C))
         = Inr (uniform (2 * R) (2 * C) v, ir_state R C v (R * C))"
    using Suc.hyps(1) [of "Suc a"] Suc.hyps(2) ar by simp
  show ?case
    using ar inner rest by (simp add: upt_conv_Cons thenE_def del: mult_Suc)
qed

lemma for_each_map:
  "for_each (map f xs) body s = for_each xs (\<lambda>x. body (f x)) s"
  by (induction xs arbitrary: s) (simp_all add: thenE_def split: sum.splits)

lemma rgir_split_uniform:
  assumes "even row" and "even column"
  shows "rgir_split cv row column (uniform row column v) (uniform row column v) =
           thenE (cvtColor_u8 cv (uniform row column v) COLOR_BayerRG2BGR)
             (\<lambda>rgb_frame. Inr (Pair rgb_frame (uniform (row div 2) (column div 2) v)))"
proof -
  from assms obtain R C where rc: "row = 2 * R" "column = 2 * C" by (auto elim!: evenE)
  have z: "ir_zeros (2 * R) (2 * C) = Inr (ir_state R C v 0)"
    by (simp add: ir_zeros_def ir_state_0)
  have loop: "for_each (range_step (2 * R) 2)
           (\<lambda>i. for_each (range_step (2 * C) 2) (\<lambda>j. rgir_body (uniform (2 * R) (2 * C) v) i j))
           (uniform (2 * R) (2 * C) v, ir_state R C v 0)
         = Inr (uniform (2 * R) (2 * C) v, ir_state R C v (R * C))"
    using rgir_outer [of 0 R C v] by (simp add: range_step_2 for_each_map)
  show ?thesis
    unfolding rc rgir_split_def z thenE_Inr loop
    by (simp add: ir_state_full)
qed

section \<open>The Y16 routine for SEE3CAM\_20CUG\<close>

lemma cvRound_bounds: "\<lfloor>q\<rfloor> \<le> cvRound q \<and> cvRound q \<le> \<lfloor>q\<rfloor> + 1"
  by (simp add: cvRound_def Let_def)

lemma cvRound_mono:
  assumes "q \<le> r"
  shows "cvRound q \<le> cvRound r"
proof (cases "\<lfloor>q\<rfloor> < \<lfloor>r\<rfloor>")
  case True
  then show ?thesis
    using cvRound_bounds [of q] cvRound_bounds [of r] by linarith
next
  case False
  then have eq: "\<lfloor>q\<rfloor> = \<lfloor>r\<rfloor>" using floor_mono [OF assms] by simp
  have d: "q - of_int \<lfloor>r\<rfloor> \<le> r - of_int \<lfloor>r\<rfloor>" using assms by simp
  show ?thesis
    using d unfolding cvRound_def Let_def eq by auto
qed

lemma saturate_u8_mono: "a \<le> b \<Longrightarrow> saturate_u8 a \<le> saturate_u8 b"
proof -
  assume ab: "a \<le> b"
  have la: "nat (max 0 (min 255 a)) < 256" and lb: "nat (max 0 (min 255 b)) < 256" by auto
  have "nat (max 0 (min 255 a)) \<le> nat (max 0 (min 255 b))" using ab by auto
  then show ?thesis
    unfolding saturate_u8_def word_le_nat_alt
    by (simp only: unat_of_nat_u8 [OF la] unat_of_nat_u8 [OF lb])
qed

lemma floor_1023_scaled: "\<lfloor>260865 / 1024 :: rat\<rfloor> = 254"
  by (rule floor_unique) simp_all






text \<open>
  The scaling the literal was meant for, alpha = 0.2490234375: it sends 512 to 128 and 1
  to 0 (the routine gives 255 and 1), sends 1023 to 255 and 0 to 0, and is monotonic.
\<close>

lemma floor_half_512: "\<lfloor>255 / 2 :: rat\<rfloor> = 127"
  by (rule floor_unique) simp_all

lemma floor_1_scaled: "\<lfloor>255 / 1024 :: rat\<rfloor> = 0"
  by (rule floor_unique) simp_all

lemma intended_scale_512_1:
  "cv_scale_px (2490234375 / 10000000000) 0 512 = 128 \<and>
   cv_scale_px (2490234375 / 10000000000) 0 1 = 0"
  by (simp add: cv_scale_px_def cvRound_def Let_def saturate_u8_def floor_half_512 floor_1_scaled)

lemma cv_scale_px_mono:
  assumes "0 \<le> alpha" and "x \<le> y"
  shows "cv_scale_px alpha 0 x \<le> cv_scale_px alpha 0 y"
proof -
  have "(of_nat x :: rat) \<le> of_nat y" using assms(2) by (simp only: of_nat_le_iff)
  then have "of_nat x * alpha \<le> of_nat y * alpha"
    using assms(1) by (rule mult_right_mono)
  moreover have "0 \<le> of_nat x * alpha" using assms(1) by (intro mult_nonneg_nonneg of_nat_0_le_iff)
  ultimately have "\<bar>of_nat x * alpha + 0\<bar> \<le> \<bar>of_nat y * alpha + 0\<bar>" by simp
  then show ?thesis
    unfolding cv_scale_px_def by (intro saturate_u8_mono cvRound_mono)
qed

lemma intended_scale_ends:
  "cv_scale_px (2490234375 / 10000000000) 0 1023 = 255 \<and>
   cv_scale_px (2490234375 / 10000000000) 0 0 = 0"
  by (simp add: cv_scale_px_def cvRound_def Let_def saturate_u8_def floor_1023_scaled)

end
